theory Spec2Isabelle
  imports Complex_Main "HOL-Library.Word" "HOL-Library.Multiset"
begin

section \<open>JavaScript strings\<close>

text \<open>
  A JavaScript string is a sequence of UTF-16 code units; \<open>length\<close>, \<open>substring\<close>,
  \<open>trim\<close> and the regular expression class \<open>\s\<close> all work on code units.
  ASCII literals of the source are written with \<open>js\<close>.
\<close>

type_synonym code_unit = "16 word"
type_synonym jsstring = "code_unit list"

definition js :: "string \<Rightarrow> jsstring" where
  "js s = map (\<lambda>c. of_nat (of_char c)) s"

text \<open>
  The characters matched by \<open>\s\<close> and removed by \<open>trim\<close> (ECMAScript WhiteSpace and
  LineTerminator): TAB, LF, VT, FF, CR, SPACE, NBSP, U+1680, U+2000..U+200A, U+2028,
  U+2029, U+202F, U+205F, U+3000 and U+FEFF.
\<close>

definition is_ws :: "code_unit \<Rightarrow> bool" where
  "is_ws u \<longleftrightarrow>
     u = 0x09 \<or> u = 0x0A \<or> u = 0x0B \<or> u = 0x0C \<or> u = 0x0D \<or> u = 0x20 \<or> u = 0xA0 \<or>
     u = 0x1680 \<or> (0x2000 \<le> u \<and> u \<le> 0x200A) \<or> u = 0x2028 \<or> u = 0x2029 \<or>
     u = 0x202F \<or> u = 0x205F \<or> u = 0x3000 \<or> u = 0xFEFF"

definition SPACE :: code_unit where
  "SPACE = 0x20"

text \<open>\<^verbatim>\<open>s.trim()\<close>: whitespace is removed from both ends.\<close>

definition trim :: "jsstring \<Rightarrow> jsstring" where
  "trim s = rev (dropWhile is_ws (rev (dropWhile is_ws s)))"

text \<open>
  \<^verbatim>\<open>s.replace(/\s+/g, ' ')\<close>: scanning from the left, every maximal run of whitespace
  is replaced by one space, every other code unit is copied.
\<close>

function collapse_ws :: "jsstring \<Rightarrow> jsstring" where
  "collapse_ws [] = []"
| "collapse_ws (u # us) =
     (if is_ws u then SPACE # collapse_ws (dropWhile is_ws us) else u # collapse_ws us)"
  by pat_completeness auto
termination
  by (relation "measure length") (auto simp: less_Suc_eq_le length_dropWhile_le)

text \<open>
  \<^verbatim>\<open>s.substring(a, b)\<close>: both indices are clamped to \<open>[0, s.length]\<close> and swapped when
  the first is the larger one.
\<close>

definition clamp_index :: "jsstring \<Rightarrow> int \<Rightarrow> nat" where
  "clamp_index s a = nat (min (max a 0) (int (length s)))"

definition substring :: "jsstring \<Rightarrow> int \<Rightarrow> int \<Rightarrow> jsstring" where
  "substring s a b =
     (let from = min (clamp_index s a) (clamp_index s b);
          to = max (clamp_index s a) (clamp_index s b)
      in take (to - from) (drop from s))"

section \<open>Errors\<close>

text \<open>
  What the program throws: its own error for a missing folder, the runtime's
  \<open>TypeError\<close> and \<open>RangeError\<close>, and the failures of the services it calls.
\<close>

datatype error =
    DocsFolderNotFound
  | TypeError
  | RangeError
  | ServiceError nat

section \<open>The chunker\<close>

text \<open>
  \<^verbatim>\<open>
  const chunkText = (text, chunkSize = 1000, chunkOverlap = 200) => {
      const textChunks = [];
      const cleanText = text.replace(/\s+/g, ' ').trim();
      for (let i = 0; i < cleanText.length; i += chunkSize - chunkOverlap) {
          const chunk = cleanText.substring(i, i + chunkSize);
          if (chunk.trim().length > 0) { textChunks.push(chunk); }
      }
      return textChunks;
  };\<close>
  The sizes are integers and may be zero or negative: the source checks nothing.
  The loop need not reach its exit test, so it is a partial function: \<open>None\<close> is a
  call whose loop never leaves through \<open>i < cleanText.length\<close>, so that no list is
  returned. Here the array \<open>textChunks\<close> may grow without bound; what an engine with
  bounded arrays does in that case is the subject of \<open>chunk_loop_capped\<close> below.
\<close>

definition cleanText :: "jsstring \<Rightarrow> jsstring" where
  "cleanText text = trim (collapse_ws text)"

partial_function (option) chunk_loop ::
  "jsstring \<Rightarrow> int \<Rightarrow> int \<Rightarrow> int \<Rightarrow> jsstring list \<Rightarrow> jsstring list option" where
  "chunk_loop clean chunkSize chunkOverlap i textChunks =
     (if i < int (length clean) then
        chunk_loop clean chunkSize chunkOverlap (i + (chunkSize - chunkOverlap))
          (if length (trim (substring clean i (i + chunkSize))) > 0
           then textChunks @ [substring clean i (i + chunkSize)]
           else textChunks)
      else Some textChunks)"

declare chunk_loop.simps [code]

definition chunkText :: "jsstring \<Rightarrow> int \<Rightarrow> int \<Rightarrow> jsstring list option" where
  "chunkText text chunkSize chunkOverlap =
     chunk_loop (cleanText text) chunkSize chunkOverlap 0 []"

text \<open>The call with both defaults, as \<open>indexLocalDocs\<close> makes it.\<close>

definition chunkText_default :: "jsstring \<Rightarrow> jsstring list option" where
  "chunkText_default text = chunkText text 1000 200"

text \<open>
  The offsets at which the loop pushes a chunk, for a positive stride \<open>d\<close>: the loop
  again, recording \<open>i\<close> instead of the chunk. It is used to speak about the range of
  the text that a chunk was cut from.
\<close>

definition chunk_at :: "jsstring \<Rightarrow> int \<Rightarrow> int \<Rightarrow> jsstring" where
  "chunk_at clean chunkSize i = substring clean i (i + chunkSize)"

function chunk_offsets :: "jsstring \<Rightarrow> int \<Rightarrow> int \<Rightarrow> int \<Rightarrow> int list" where
  "chunk_offsets clean chunkSize d i =
     (if 0 < d \<and> i < int (length clean) then
        (if length (trim (chunk_at clean chunkSize i)) > 0 then [i] else [])
          @ chunk_offsets clean chunkSize d (i + d)
      else [])"
  by pat_completeness auto
termination
  by (relation "measure (\<lambda>(clean, chunkSize, d, i). nat (int (length clean) - i))") auto

declare chunk_offsets.simps [simp del]

text \<open>
  The same loop on an engine whose arrays hold at most \<open>cap\<close> elements (the language
  allows \<open>2^32 - 1\<close>; an engine may stop earlier): \<open>textChunks.push(chunk)\<close> on a
  full array throws \<open>RangeError: Invalid array length\<close>, which nothing in
  \<open>chunkText\<close> catches. The result is \<open>None\<close> when the call runs forever,
  \<open>Some (Inl RangeError)\<close> when it throws and \<open>Some (Inr textChunks)\<close> when it
  returns.
\<close>

partial_function (option) chunk_loop_capped ::
  "nat \<Rightarrow> jsstring \<Rightarrow> int \<Rightarrow> int \<Rightarrow> int \<Rightarrow> jsstring list \<Rightarrow> (error + jsstring list) option" where
  "chunk_loop_capped cap clean chunkSize chunkOverlap i textChunks =
     (if i < int (length clean) then
        (if length (trim (substring clean i (i + chunkSize))) > 0 then
           (if length textChunks < cap then
              chunk_loop_capped cap clean chunkSize chunkOverlap (i + (chunkSize - chunkOverlap))
                (textChunks @ [substring clean i (i + chunkSize)])
            else Some (Inl RangeError))
         else
           chunk_loop_capped cap clean chunkSize chunkOverlap (i + (chunkSize - chunkOverlap))
             textChunks)
      else Some (Inr textChunks))"

declare chunk_loop_capped.simps [code]

definition chunkText_capped ::
  "nat \<Rightarrow> jsstring \<Rightarrow> int \<Rightarrow> int \<Rightarrow> (error + jsstring list) option" where
  "chunkText_capped cap text chunkSize chunkOverlap =
     chunk_loop_capped cap (cleanText text) chunkSize chunkOverlap 0 []"

text \<open>The largest array length of the language.\<close>

definition max_array_length :: nat where
  "max_array_length = 2 ^ 32 - 1"

section \<open>The document indexer\<close>

text \<open>
  The services the program calls are parameters of the model: the file system, the PDF
  text extraction, the embedding service, the vector store and the generation service.
  A call that throws or rejects returns \<open>Inl\<close> of an \<open>error\<close>.
\<close>

type_synonym embedding = "real list"

record row =
  content :: jsstring
  embedding :: embedding
  title :: "jsstring option"
  source :: "jsstring option"
  path :: "jsstring option"

record match =
  match_id :: int
  match_content :: jsstring
  similarity :: real

record message =
  role :: jsstring
  msg_content :: jsstring

record services =
  docs_exists :: bool
  readdir :: "jsstring list"
  path_join :: "jsstring \<Rightarrow> jsstring"
  parse_name :: "jsstring \<Rightarrow> jsstring"
  getText :: "jsstring \<Rightarrow> error + jsstring option"
  create_embedding :: "jsstring \<Rightarrow> error + embedding"
  insert_row :: "row \<Rightarrow> error option"
  cosine_distance :: "embedding \<Rightarrow> embedding \<Rightarrow> real"
  table :: "(int \<times> row) list"
  rpc_failure :: "error option"
  create_chat :: "message list \<Rightarrow> error + jsstring"

text \<open>
  \<open>docs_exists\<close> is \<^verbatim>\<open>fs.existsSync(DOCS_DIR)\<close>, \<open>readdir\<close> is
  \<^verbatim>\<open>fs.readdirSync(DOCS_DIR)\<close>, \<open>path_join\<close> is \<^verbatim>\<open>path.join(DOCS_DIR, file)\<close>,
  \<open>parse_name\<close> is \<^verbatim>\<open>path.parse(file).name\<close>, \<open>getText\<close> reads and parses the file at a
  path and gives \<^verbatim>\<open>pdfData.text\<close> (\<open>None\<close> when that field is undefined).
  The outcome of an embedding or insert call is taken to depend on its argument only.
\<close>

datatype log_event =
    LogIndexing jsstring
  | WarnNoText jsstring
  | ErrorInserting error

text \<open>
  The vector store holds the inserted rows. The inserts of one document run concurrently
  and complete in no fixed order, so the rows are a multiset. The state is the one
  reached when every operation in flight has settled.
\<close>

record store =
  rows :: "row multiset"
  console :: "log_event list"

text \<open>\<^verbatim>\<open>file.toLowerCase().endsWith('.pdf')\<close>; only the letters A to Z matter for the
  suffix test, so the case mapping is given for them only.\<close>

definition lower_unit :: "code_unit \<Rightarrow> code_unit" where
  "lower_unit u = (if 0x41 \<le> u \<and> u \<le> 0x5A then u + 0x20 else u)"

definition toLowerCase :: "jsstring \<Rightarrow> jsstring" where
  "toLowerCase s = map lower_unit s"

definition endsWith :: "jsstring \<Rightarrow> jsstring \<Rightarrow> bool" where
  "endsWith s suffix \<longleftrightarrow>
     length suffix \<le> length s \<and> drop (length s - length suffix) s = suffix"

definition is_pdf :: "jsstring \<Rightarrow> bool" where
  "is_pdf file \<longleftrightarrow> endsWith (toLowerCase file) (js ''.pdf'')"

text \<open>\<^verbatim>\<open>metadata.title || null\<close>: the empty string is falsy.\<close>

definition or_null :: "jsstring \<Rightarrow> jsstring option" where
  "or_null s = (if s = [] then None else Some s)"

record metadata =
  md_title :: jsstring
  md_source :: jsstring
  md_path :: jsstring

text \<open>
  \<^verbatim>\<open>
  const saveChunksAsEmbeddings = async (textChunks, metadata = {}) => {
      const promises = textChunks.map(async (chunk) => {
          const embeddingResponse = await openai.embeddings.create({ ..., input: chunk });
          const embedding = embeddingResponse.data[0].embedding;
          const { error } = await supabase.from('MyPDFDocuments').insert([{ content: chunk,
              embedding: embedding, title: metadata.title || null,
              source: metadata.source || null, path: metadata.path || null }]);
          if (error) { console.error(...); throw error; }
      });
      await Promise.all(promises);
  };\<close>
  Every chunk's operation is started; each one settles on its own. \<open>Promise.all\<close>
  rejects when one of them does. When several fail, the one that rejects first depends on
  timing; the model reports them in the order of the chunks.
\<close>

datatype chunk_outcome =
    Persisted row
  | EmbeddingFailed error
  | InsertFailed error

definition save_chunk :: "services \<Rightarrow> metadata \<Rightarrow> jsstring \<Rightarrow> chunk_outcome" where
  "save_chunk sv md chunk =
     (case create_embedding sv chunk of
        Inl e \<Rightarrow> EmbeddingFailed e
      | Inr emb \<Rightarrow>
          (let r = \<lparr>content = chunk, embedding = emb, title = or_null (md_title md),
                    source = or_null (md_source md), path = or_null (md_path md)\<rparr>
           in case insert_row sv r of
                Some e \<Rightarrow> InsertFailed e
              | None \<Rightarrow> Persisted r))"

fun persisted_rows :: "chunk_outcome list \<Rightarrow> row list" where
  "persisted_rows [] = []"
| "persisted_rows (Persisted r # os) = r # persisted_rows os"
| "persisted_rows (_ # os) = persisted_rows os"

fun insert_errors :: "chunk_outcome list \<Rightarrow> log_event list" where
  "insert_errors [] = []"
| "insert_errors (InsertFailed e # os) = ErrorInserting e # insert_errors os"
| "insert_errors (_ # os) = insert_errors os"

fun rejection :: "chunk_outcome list \<Rightarrow> error option" where
  "rejection [] = None"
| "rejection (Persisted r # os) = rejection os"
| "rejection (EmbeddingFailed e # os) = Some e"
| "rejection (InsertFailed e # os) = Some e"

definition saveChunksAsEmbeddings ::
  "services \<Rightarrow> jsstring list \<Rightarrow> metadata \<Rightarrow> store \<Rightarrow> error option \<times> store" where
  "saveChunksAsEmbeddings sv textChunks md st =
     (let outcomes = map (save_chunk sv md) textChunks
      in (rejection outcomes,
          st\<lparr>rows := rows st + mset (persisted_rows outcomes),
             console := console st @ insert_errors outcomes\<rparr>))"

text \<open>
  \<^verbatim>\<open>
  for (const file of files) {
      if (!file.toLowerCase().endsWith('.pdf')) { continue; }
      const fullPath = path.join(DOCS_DIR, file);
      console.log(`Indexing PDF: ${fullPath}`);
      const dataBuffer = fs.readFileSync(fullPath);
      const pdfParser = new PDFParse({ data: dataBuffer });
      const pdfData = await pdfParser.getText();
      const text = (pdfData.text || '').trim();
      if (!text) { console.warn(`No text extracted from ${file}, skipping.`); continue; }
      const textChunks = chunkText(text);
      await saveChunksAsEmbeddings(textChunks, { title: path.parse(file).name,
          source: 'pdf', path: fullPath });
  }\<close>
  The result is \<open>None\<close> when \<open>chunkText\<close> returns no list (with the default
  sizes it always does), otherwise the error thrown (if any) and the store.
\<close>

fun index_loop :: "services \<Rightarrow> jsstring list \<Rightarrow> store \<Rightarrow> (error option \<times> store) option" where
  "index_loop sv [] st = Some (None, st)"
| "index_loop sv (file # files) st =
     (if \<not> is_pdf file then index_loop sv files st
      else
        let fullPath = path_join sv file;
            st1 = st\<lparr>console := console st @ [LogIndexing fullPath]\<rparr>
        in case getText sv fullPath of
             Inl e \<Rightarrow> Some (Some e, st1)
           | Inr pdfText \<Rightarrow>
               (let text = trim (case pdfText of None \<Rightarrow> [] | Some t \<Rightarrow> t)
                in if text = [] then
                     index_loop sv files (st1\<lparr>console := console st1 @ [WarnNoText file]\<rparr>)
                   else
                     (case chunkText_default text of
                        None \<Rightarrow> None
                      | Some textChunks \<Rightarrow>
                          (case saveChunksAsEmbeddings sv textChunks
                                  \<lparr>md_title = parse_name sv file, md_source = js ''pdf'',
                                   md_path = fullPath\<rparr> st1 of
                             (Some e, st2) \<Rightarrow> Some (Some e, st2)
                           | (None, st2) \<Rightarrow> index_loop sv files st2))))"

definition indexLocalDocs :: "services \<Rightarrow> store \<Rightarrow> (error option \<times> store) option" where
  "indexLocalDocs sv st =
     (if \<not> docs_exists sv then Some (Some DocsFolderNotFound, st)
      else index_loop sv (readdir sv) st)"

section \<open>Retrieval, context assembly and the query route\<close>

text \<open>
  The search function of the vector store, from the README:
  \<^verbatim>\<open>
  select d.id, d.content, 1 - (d.embedding <=> query_embedding) as similarity
  from "MyPDFDocuments" d
  where 1 - (d.embedding <=> query_embedding) > match_threshold
  order by similarity desc
  limit match_count;\<close>
  \<open><=>\<close> is the cosine distance of the store, a parameter here. Similarities are
  compared as real numbers. Rows of equal similarity come in no specified order; the
  model keeps them in table order. The second copy of the function in the README orders
  by the distance, ascending, which is the same order.
\<close>

definition to_match :: "(embedding \<Rightarrow> embedding \<Rightarrow> real) \<Rightarrow> embedding \<Rightarrow> int \<times> row \<Rightarrow> match" where
  "to_match distance query_embedding d =
     \<lparr>match_id = fst d, match_content = content (snd d),
      similarity = 1 - distance (embedding (snd d)) query_embedding\<rparr>"

definition match_documents ::
  "(embedding \<Rightarrow> embedding \<Rightarrow> real) \<Rightarrow> (int \<times> row) list \<Rightarrow> embedding \<Rightarrow> real \<Rightarrow> nat \<Rightarrow> match list" where
  "match_documents distance tbl query_embedding match_threshold match_count =
     take match_count
       (sort_key (\<lambda>m. - similarity m)
          (filter (\<lambda>m. similarity m > match_threshold)
             (map (to_match distance query_embedding) tbl)))"

text \<open>\<^verbatim>\<open>supabase.rpc('match_documents', ...)\<close> gives \<open>{ data, error }\<close>.\<close>

definition rpc_match_documents ::
  "services \<Rightarrow> embedding \<Rightarrow> real \<Rightarrow> nat \<Rightarrow> error + match list" where
  "rpc_match_documents sv query_embedding match_threshold match_count =
     (case rpc_failure sv of
        Some e \<Rightarrow> Inl e
      | None \<Rightarrow> Inr (match_documents (cosine_distance sv) (table sv) query_embedding
                       match_threshold match_count))"

text \<open>\<^verbatim>\<open>query.replace(/\n/g, ' ')\<close>\<close>

definition replace_newlines :: "jsstring \<Rightarrow> jsstring" where
  "replace_newlines s = map (\<lambda>u. if u = 0x0A then SPACE else u) s"

text \<open>Steps 1 and 2 of \<open>processQuery\<close>: embed the query, search the store.\<close>

definition retrieve :: "services \<Rightarrow> jsstring \<Rightarrow> error + match list" where
  "retrieve sv query =
     (case create_embedding sv (replace_newlines query) of
        Inl e \<Rightarrow> Inl e
      | Inr emb \<Rightarrow> rpc_match_documents sv emb (1 / 2) 10)"

text \<open>The decimal digits of a number, as a template literal prints \<^verbatim>\<open>idx + 1\<close>.\<close>

fun decimal :: "nat \<Rightarrow> jsstring" where
  "decimal n =
     (if n < 10 then [0x30 + of_nat n]
      else decimal (n div 10) @ [0x30 + of_nat (n mod 10)])"

declare decimal.simps [simp del]

text \<open>
  \<^verbatim>\<open>
  let context = '';
  data.forEach((row, idx) => {
      context += `Chunk ${idx + 1}:\n${row.content.trim()}\n\n`;
  });
  if (!context) { context = 'No relevant context found.'; }\<close>
\<close>

definition context_section :: "nat \<Rightarrow> match \<Rightarrow> jsstring" where
  "context_section idx r =
     js ''Chunk '' @ decimal (idx + 1) @ js '':\<newline>'' @ trim (match_content r) @ js ''\<newline>\<newline>''"

definition build_context :: "match list \<Rightarrow> jsstring" where
  "build_context data =
     (let context = foldl (\<lambda>context (idx, r). context @ context_section idx r) []
                      (enumerate 0 data)
      in if context = [] then js ''No relevant context found.'' else context)"

definition build_messages :: "jsstring \<Rightarrow> jsstring \<Rightarrow> message list" where
  "build_messages context query =
     [\<lparr>role = js ''system'',
       msg_content = js ''You are a representative that is very helpful, Only ever answer\<newline>    truthfully and be as helpful as you can!''\<rparr>,
      \<lparr>role = js ''user'',
       msg_content = js ''Context:\<newline>'' @ context @ js ''\<newline>\<newline>Question: '' @ query
                     @ js ''\<newline>\<newline>Answer clearly and concisely.''\<rparr>]"

text \<open>
  \<open>processQuery\<close> returns the answer or the error thrown, and the calls it made to
  the services, in order.
\<close>

datatype call =
    CallEmbedding jsstring
  | CallSearch embedding
  | CallChat "message list"

definition processQuery :: "services \<Rightarrow> jsstring \<Rightarrow> (error + jsstring) \<times> call list" where
  "processQuery sv query =
     (let input = replace_newlines query
      in case create_embedding sv input of
           Inl e \<Rightarrow> (Inl e, [CallEmbedding input])
         | Inr emb \<Rightarrow>
             (case rpc_match_documents sv emb (1 / 2) 10 of
                Inl e \<Rightarrow> (Inl e, [CallEmbedding input, CallSearch emb])
              | Inr data \<Rightarrow>
                  (let messages = build_messages (build_context data) query
                   in (create_chat sv messages,
                       [CallEmbedding input, CallSearch emb, CallChat messages]))))"



datatype payload =
    Message jsstring
  | ErrorMessage jsstring
  | ErrorDetails jsstring error
  | Answer jsstring

record response =
  status :: nat
  body :: payload


text \<open>
  \<^verbatim>\<open>
  app.post('/index-docs', async (req, res) => {
      try {
          await indexLocalDocs();
          res.status(200).json({ message: 'Indexed all PDFs from MyDocs folder into Supabase.' });
      } catch (error) {
          res.status(500).json({ error: 'Failed to index local docs', details: error.message });
      }
  });\<close>
\<close>

definition index_docs_route :: "services \<Rightarrow> store \<Rightarrow> (response \<times> store) option" where
  "index_docs_route sv st =
     (case indexLocalDocs sv st of
        None \<Rightarrow> None
      | Some (None, st') \<Rightarrow>
          Some (\<lparr>status = 200,
                 body = Message (js ''Indexed all PDFs from MyDocs folder into Supabase.'')\<rparr>, st')
      | Some (Some e, st') \<Rightarrow>
          Some (\<lparr>status = 500, body = ErrorDetails (js ''Failed to index local docs'') e\<rparr>, st'))"

section \<open>An example environment\<close>

text \<open>
  A folder with five entries, in this order: a PDF whose text is only whitespace, a text
  file, a PDF that indexes without error, a PDF whose only chunk the embedding service
  refuses, and one more PDF that would index without error.
  Embeddings have one component, and the distance of two embeddings is the distance of
  their first components. The table holds four rows, at similarities 0.9, 0.5, 0.7 and
  0.1 to the query embedding \<open>[0]\<close>.
\<close>

definition example_getText :: "jsstring \<Rightarrow> error + jsstring option" where
  "example_getText p =
     (if p = js ''MyDocs/blank.pdf'' then Inr (Some (js '' \<newline> ''))
      else if p = js ''MyDocs/good.pdf'' then Inr (Some (js ''leave  policy''))
      else if p = js ''MyDocs/bad.PDF'' then Inr (Some (js ''refused''))
      else if p = js ''MyDocs/late.pdf'' then Inr (Some (js ''late''))
      else Inl (ServiceError 2))"

definition example_row :: "jsstring \<Rightarrow> real \<Rightarrow> row" where
  "example_row c x = \<lparr>content = c, embedding = [x], title = None, source = None, path = None\<rparr>"

definition example_services :: services where
  "example_services =
     \<lparr>docs_exists = True,
      readdir = [js ''blank.pdf'', js ''notes.txt'', js ''good.pdf'', js ''bad.PDF'',
                 js ''late.pdf''],
      path_join = (\<lambda>file. js ''MyDocs/'' @ file),
      parse_name = (\<lambda>file. take (length file - 4) file),
      getText = example_getText,
      create_embedding = (\<lambda>input. if input = js ''refused'' then Inl (ServiceError 1) else Inr [0]),
      insert_row = (\<lambda>r. None),
      cosine_distance = (\<lambda>a b. \<bar>hd a - hd b\<bar>),
      table = [(1, example_row (js ''one'') (1 / 10)), (2, example_row (js ''two'') (1 / 2)),
               (3, example_row (js '' three '') (3 / 10)), (4, example_row (js ''four'') (9 / 10))],
      rpc_failure = None,
      create_chat = (\<lambda>messages. Inr (js ''answer''))\<rparr>"

definition empty_store :: store where
  "empty_store = \<lparr>rows = {#}, console = []\<rparr>"

definition good_row :: row where
  "good_row = \<lparr>content = js ''leave policy'', embedding = [0], title = Some (js ''good''),
               source = Some (js ''pdf''), path = Some (js ''MyDocs/good.pdf'')\<rparr>"

definition late_row :: row where
  "late_row = \<lparr>content = js ''late'', embedding = [0], title = Some (js ''late''),
               source = Some (js ''pdf''), path = Some (js ''MyDocs/late.pdf'')\<rparr>"

definition store_after_good :: store where
  "store_after_good =
     \<lparr>rows = {#good_row#},
      console = [LogIndexing (js ''MyDocs/blank.pdf''), WarnNoText (js ''blank.pdf''),
                 LogIndexing (js ''MyDocs/good.pdf'')]\<rparr>"

definition match_one :: match where
  "match_one = \<lparr>match_id = 1, match_content = js ''one'', similarity = 9 / 10\<rparr>"

definition match_three :: match where
  "match_three = \<lparr>match_id = 3, match_content = js '' three '', similarity = 7 / 10\<rparr>"

section \<open>Properties of chunk lists\<close>

text \<open>No two neighbouring code units of a string are both whitespace.\<close>

fun no_adjacent_ws :: "jsstring \<Rightarrow> bool" where
  "no_adjacent_ws (a # b # us) = (\<not> (is_ws a \<and> is_ws b) \<and> no_adjacent_ws (b # us))"
| "no_adjacent_ws _ = True"

text \<open>The last \<open>n\<close> code units of a string (all of it when it is shorter).\<close>

definition last_chars :: "nat \<Rightarrow> jsstring \<Rightarrow> jsstring" where
  "last_chars n s = drop (length s - n) s"

text \<open>
  The range \<open>[j, j + length)\<close> of the clean text that each pushed chunk was cut from,
  and whether a position lies in one of them.
\<close>

definition chunk_ranges :: "jsstring \<Rightarrow> int \<Rightarrow> int \<Rightarrow> (int \<times> int) list" where
  "chunk_ranges clean chunkSize d =
     map (\<lambda>j. (j, j + int (length (chunk_at clean chunkSize j))))
       (chunk_offsets clean chunkSize d 0)"

definition covered :: "(int \<times> int) list \<Rightarrow> nat \<Rightarrow> bool" where
  "covered ranges p \<longleftrightarrow> list_ex (\<lambda>(a, b). a \<le> int p \<and> int p < b) ranges"

section \<open>Strings: normal form of the clean text\<close>

lemma is_ws_SPACE: "is_ws SPACE"
  by (simp add: is_ws_def SPACE_def)

lemma no_adjacent_ws_nth:
  "no_adjacent_ws s \<longleftrightarrow> (\<forall>i. Suc i < length s \<longrightarrow> \<not> (is_ws (s ! i) \<and> is_ws (s ! Suc i)))"
proof (induction s rule: no_adjacent_ws.induct)
  case (1 a b us)
  show ?case
  proof
    assume h: "no_adjacent_ws (a # b # us)"
    show "\<forall>i. Suc i < length (a # b # us) \<longrightarrow> \<not> (is_ws ((a # b # us) ! i) \<and> is_ws ((a # b # us) ! Suc i))"
    proof (intro allI impI)
      fix i assume "Suc i < length (a # b # us)"
      then show "\<not> (is_ws ((a # b # us) ! i) \<and> is_ws ((a # b # us) ! Suc i))"
        using h 1 by (cases i) auto
    qed
  next
    assume h: "\<forall>i. Suc i < length (a # b # us) \<longrightarrow> \<not> (is_ws ((a # b # us) ! i) \<and> is_ws ((a # b # us) ! Suc i))"
    have "\<not> (is_ws a \<and> is_ws b)" using h [rule_format, of 0] by simp
    moreover have "\<forall>i. Suc i < length (b # us) \<longrightarrow> \<not> (is_ws ((b # us) ! i) \<and> is_ws ((b # us) ! Suc i))"
      using h [rule_format, of "Suc _"] by simp
    ultimately show "no_adjacent_ws (a # b # us)" using 1 by simp
  qed
qed simp_all

lemma no_adjacent_ws_drop: "no_adjacent_ws s \<Longrightarrow> no_adjacent_ws (drop n s)"
  by (simp add: no_adjacent_ws_nth)

lemma no_adjacent_ws_take: "no_adjacent_ws s \<Longrightarrow> no_adjacent_ws (take n s)"
  by (simp add: no_adjacent_ws_nth)

lemma no_adjacent_ws_collapse: "no_adjacent_ws (collapse_ws s)"
proof (induction s rule: collapse_ws.induct)
  case 1
  show ?case by simp
next
  case (2 u us)
  show ?case
  proof (cases "is_ws u")
    case True
    show ?thesis
    proof (cases "dropWhile is_ws us")
      case Nil
      have "collapse_ws (u # us) = SPACE # collapse_ws (dropWhile is_ws us)"
        using True by simp
      then have "collapse_ws (u # us) = [SPACE]"
        by (simp only: Nil collapse_ws.simps)
      then show ?thesis by simp
    next
      case (Cons v vs)
      then have "\<not> is_ws v" using hd_dropWhile [of is_ws us] by simp
      with True Cons 2 show ?thesis by simp
    qed
  next
    case False
    with 2 show ?thesis by (cases "collapse_ws us") simp_all
  qed
qed

lemma collapse_ws_only_space: "u \<in> set (collapse_ws s) \<Longrightarrow> is_ws u \<Longrightarrow> u = SPACE"
proof (induction s rule: collapse_ws.induct)
  case 1
  then show ?case by simp
next
  case (2 v vs)
  then show ?case by (auto split: if_splits)
qed

lemma trim_as_take_drop: "\<exists>m n. trim s = take n (drop m s)"
proof -
  let ?a = "dropWhile is_ws s"
  have "trim s = rev (drop (length (takeWhile is_ws (rev ?a))) (rev ?a))"
    unfolding trim_def by (simp add: dropWhile_eq_drop)
  also have "\<dots> = take (length ?a - length (takeWhile is_ws (rev ?a))) ?a"
    by (simp add: rev_drop)
  also have "?a = drop (length (takeWhile is_ws s)) s"
    by (simp add: dropWhile_eq_drop)
  finally show ?thesis by blast
qed

lemma dropWhile_all_iff:
  "(\<forall>u \<in> set (dropWhile P s). P u) \<longleftrightarrow> (\<forall>u \<in> set s. P u)"
proof (cases "dropWhile P s")
  case Nil
  then show ?thesis by (auto dest: set_dropWhileD simp: dropWhile_eq_Nil_conv)
next
  case (Cons v vs)
  then have "\<not> P v" using hd_dropWhile [of P s] by simp
  moreover have "v \<in> set s" using Cons by (metis list.set_intros(1) set_dropWhileD)
  ultimately show ?thesis using Cons by auto
qed

lemma trim_empty_iff: "trim s = [] \<longleftrightarrow> (\<forall>u \<in> set s. is_ws u)"
  by (simp add: trim_def dropWhile_eq_Nil_conv dropWhile_all_iff)

lemma trim_hd: "trim s \<noteq> [] \<Longrightarrow> \<not> is_ws (hd (trim s))"
proof -
  assume ne: "trim s \<noteq> []"
  let ?a = "dropWhile is_ws s"
  let ?b = "dropWhile is_ws (rev ?a)"
  have b: "?b \<noteq> []" using ne by (simp add: trim_def)
  have a: "?a \<noteq> []"
  proof
    assume "?a = []"
    then have "?b = []" by (simp only: rev.simps dropWhile.simps)
    with b show False by simp
  qed
  have "hd (trim s) = last ?b" using b by (simp add: trim_def hd_rev)
  also have "\<dots> = last (rev ?a)" using b by (metis last_appendR takeWhile_dropWhile_id)
  also have "\<dots> = hd ?a" using a by (simp add: last_rev)
  finally show ?thesis using a hd_dropWhile [of is_ws s] by simp
qed

lemma trim_last: "trim s \<noteq> [] \<Longrightarrow> \<not> is_ws (last (trim s))"
proof -
  assume ne: "trim s \<noteq> []"
  let ?b = "dropWhile is_ws (rev (dropWhile is_ws s))"
  have b: "?b \<noteq> []" using ne by (simp add: trim_def)
  have "last (trim s) = hd ?b" using b by (simp add: trim_def last_rev)
  then show ?thesis using b hd_dropWhile [of is_ws "rev (dropWhile is_ws s)"] by simp
qed

lemma cleanText_no_adjacent: "no_adjacent_ws (cleanText text)"
proof -
  obtain m n where "trim (collapse_ws text) = take n (drop m (collapse_ws text))"
    using trim_as_take_drop by blast
  then show ?thesis
    by (simp add: cleanText_def no_adjacent_ws_take no_adjacent_ws_drop no_adjacent_ws_collapse)
qed

lemma cleanText_only_space: "u \<in> set (cleanText text) \<Longrightarrow> is_ws u \<Longrightarrow> u = SPACE"
proof -
  assume u: "u \<in> set (cleanText text)" and w: "is_ws u"
  obtain m n where "trim (collapse_ws text) = take n (drop m (collapse_ws text))"
    using trim_as_take_drop by blast
  then have "u \<in> set (collapse_ws text)"
    using u by (metis cleanText_def in_set_dropD in_set_takeD)
  then show ?thesis using w by (rule collapse_ws_only_space)
qed

lemma cleanText_last: "cleanText text \<noteq> [] \<Longrightarrow> \<not> is_ws (last (cleanText text))"
  by (simp add: cleanText_def trim_last)

lemma cleanText_hd: "cleanText text \<noteq> [] \<Longrightarrow> \<not> is_ws (hd (cleanText text))"
  by (simp add: cleanText_def trim_hd)

section \<open>The chunking loop in closed form\<close>

lemma substring_take_drop:
  assumes i: "0 \<le> i" and n: "0 \<le> n"
  shows "substring s i (i + n) = take (nat n) (drop (nat i) s)"
proof -
  have c: "clamp_index s i \<le> clamp_index s (i + n)"
    using i n by (simp add: clamp_index_def)
  have "take (clamp_index s (i + n) - clamp_index s i) (drop (clamp_index s i) s)
        = take (nat n) (drop (nat i) s)"
  proof (cases "i + n \<le> int (length s)")
    case True
    then have "clamp_index s (i + n) = nat i + nat n" "clamp_index s i = nat i"
      using i n by (simp_all add: clamp_index_def nat_add_distrib)
    then show ?thesis by simp
  next
    case False
    then have e: "clamp_index s (i + n) = length s"
      using i n by (simp add: clamp_index_def)
    show ?thesis
    proof (cases "i \<le> int (length s)")
      case True
      then have "clamp_index s i = nat i" using i by (simp add: clamp_index_def)
      moreover have "length s - nat i \<le> nat n" using False i n by linarith
      ultimately show ?thesis using e by simp
    next
      case False
      then have "clamp_index s i = length s" "length s \<le> nat i"
        using i by (simp_all add: clamp_index_def)
      then show ?thesis using e by simp
    qed
  qed
  then show ?thesis using c by (simp add: substring_def Let_def min_def max_def)
qed

lemma substring_is_slice: "\<exists>m n. substring s a b = take n (drop m s)"
  unfolding substring_def Let_def by blast

lemma chunk_at_take_drop:
  "0 \<le> i \<Longrightarrow> 0 \<le> sz \<Longrightarrow> chunk_at T sz i = take (nat sz) (drop (nat i) T)"
  by (simp add: chunk_at_def substring_take_drop)

lemma chunk_loop_offsets:
  "0 < sz - ov \<Longrightarrow>
   chunk_loop T sz ov i acc = Some (acc @ map (chunk_at T sz) (chunk_offsets T sz (sz - ov) i))"
proof (induction T sz "sz - ov" i arbitrary: acc rule: chunk_offsets.induct)
  case (1 T sz i)
  show ?case
  proof (cases "i < int (length T)")
    case True
    with 1 show ?thesis
      by (subst chunk_loop.simps, subst chunk_offsets.simps) (simp add: chunk_at_def)
  next
    case False
    then show ?thesis
      by (subst chunk_loop.simps, subst chunk_offsets.simps) simp
  qed
qed

lemma chunk_loop_returns_only_if:
  assumes "chunk_loop T sz ov i acc = Some r"
  shows "\<not> (sz \<le> ov \<and> i < int (length T))"
  by (rule chunk_loop.raw_induct
        [where P = "\<lambda>T sz ov i acc r. \<not> (sz \<le> ov \<and> i < int (length T))", OF _ assms])
     (fastforce split: if_splits)

lemma chunk_loop_no_exit:
  "sz \<le> ov \<Longrightarrow> i < int (length T) \<Longrightarrow> chunk_loop T sz ov i acc = None"
  using chunk_loop_returns_only_if [of T sz ov i acc]
  by (cases "chunk_loop T sz ov i acc") auto

lemma chunkText_closed_form:
  "ov < sz \<Longrightarrow>
   chunkText text sz ov =
     Some (map (chunk_at (cleanText text) sz) (chunk_offsets (cleanText text) sz (sz - ov) 0))"
  by (simp add: chunkText_def chunk_loop_offsets)

lemma chunkText_empty: "cleanText text = [] \<Longrightarrow> chunkText text sz ov = Some []"
  by (simp add: chunkText_def chunk_loop.simps)

lemma chunkText_no_list:
  "sz \<le> ov \<Longrightarrow> cleanText text \<noteq> [] \<Longrightarrow> chunkText text sz ov = None"
  by (simp add: chunkText_def chunk_loop_no_exit)

lemma chunk_offsets_member:
  "j \<in> set (chunk_offsets T sz d i) \<Longrightarrow>
   i \<le> j \<and> j < int (length T) \<and> trim (chunk_at T sz j) \<noteq> []"
proof (induction T sz d i rule: chunk_offsets.induct)
  case (1 T sz d i)
  show ?case
  proof (cases "0 < d \<and> i < int (length T)")
    case True
    from "1.prems" have "j = i \<and> trim (chunk_at T sz i) \<noteq> [] \<or> j \<in> set (chunk_offsets T sz d (i + d))"
      by (subst (asm) chunk_offsets.simps) (auto simp: True split: if_splits)
    then show ?thesis
    proof
      assume "j = i \<and> trim (chunk_at T sz i) \<noteq> []"
      with True show ?thesis by simp
    next
      assume "j \<in> set (chunk_offsets T sz d (i + d))"
      with "1.IH" True have "i + d \<le> j \<and> j < int (length T) \<and> trim (chunk_at T sz j) \<noteq> []"
        by blast
      with True show ?thesis by simp
    qed
  next
    case False
    with "1.prems" show ?thesis
      by (subst (asm) chunk_offsets.simps) simp
  qed
qed

lemma slice_nth_member:
  "m + k < length T \<Longrightarrow> k < n \<Longrightarrow> T ! (m + k) \<in> set (take n (drop m T))"
proof -
  assume a: "m + k < length T" and b: "k < n"
  then have "k < length (take n (drop m T))" by simp
  moreover have "take n (drop m T) ! k = T ! (m + k)" using a b by simp
  ultimately show ?thesis by (metis nth_mem)
qed

lemma nonblank_slice:
  assumes adj: "no_adjacent_ws T" and lst: "\<not> is_ws (last T)"
    and j: "j < length T" and n: "2 \<le> n"
  shows "trim (take n (drop j T)) \<noteq> []"
proof (cases "Suc j < length T")
  case True
  have a: "T ! j \<in> set (take n (drop j T))"
    using slice_nth_member [of j 0 T n] j n by simp
  have b: "T ! Suc j \<in> set (take n (drop j T))"
    using slice_nth_member [of j 1 T n] True n by simp
  have "\<not> (is_ws (T ! j) \<and> is_ws (T ! Suc j))"
    using adj True by (simp add: no_adjacent_ws_nth)
  with a b show ?thesis by (auto simp: trim_empty_iff)
next
  case False
  with j have e: "j = length T - 1" by simp
  have "T \<noteq> []" using j by auto
  then have "T ! j = last T" using e by (simp add: last_conv_nth)
  moreover have "T ! j \<in> set (take n (drop j T))"
    using slice_nth_member [of j 0 T n] j n by simp
  ultimately show ?thesis using lst by (auto simp: trim_empty_iff)
qed

lemma cleanText_chunk_nonblank:
  assumes "0 \<le> j" "j < int (length (cleanText text))" "2 \<le> sz"
  shows "trim (chunk_at (cleanText text) sz j) \<noteq> []"
proof -
  have ne: "cleanText text \<noteq> []" using assms by auto
  have "trim (take (nat sz) (drop (nat j) (cleanText text))) \<noteq> []"
    using assms by (intro nonblank_slice cleanText_no_adjacent cleanText_last ne) simp_all
  then show ?thesis using assms by (simp add: chunk_at_take_drop)
qed

lemma chunk_offsets_step:
  assumes "0 \<le> i" "i < int (length (cleanText text))" "2 \<le> sz" "0 < d"
  shows "chunk_offsets (cleanText text) sz d i = i # chunk_offsets (cleanText text) sz d (i + d)"
  using assms cleanText_chunk_nonblank [of i "text" sz]
  by (subst chunk_offsets.simps) simp

lemma chunk_offsets_stop:
  "int (length T) \<le> i \<Longrightarrow> chunk_offsets T sz d i = []"
  by (subst chunk_offsets.simps) simp

lemma chunk_offsets_nth:
  assumes "2 \<le> sz" "0 < d"
  shows "0 \<le> i \<Longrightarrow> k < length (chunk_offsets (cleanText text) sz d i) \<Longrightarrow>
         chunk_offsets (cleanText text) sz d i ! k = i + int k * d"
proof (induction k arbitrary: i)
  case 0
  then have "i < int (length (cleanText text))"
    using chunk_offsets_stop [of "cleanText text" i sz d] by (cases "i < int (length (cleanText text))") auto
  with 0 assms show ?case by (simp add: chunk_offsets_step)
next
  case (Suc k)
  then have lt: "i < int (length (cleanText text))"
    using chunk_offsets_stop [of "cleanText text" i sz d] by (cases "i < int (length (cleanText text))") auto
  then have st: "chunk_offsets (cleanText text) sz d i = i # chunk_offsets (cleanText text) sz d (i + d)"
    using Suc.prems assms by (simp add: chunk_offsets_step)
  then have "k < length (chunk_offsets (cleanText text) sz d (i + d))"
    using Suc.prems by simp
  moreover have "0 \<le> i + d" using Suc.prems assms by simp
  ultimately have "chunk_offsets (cleanText text) sz d (i + d) ! k = i + d + int k * d"
    using Suc.IH by blast
  then show ?case using st by (simp add: algebra_simps)
qed



lemma chunk_offsets_unfold:
  "0 < d \<Longrightarrow> i < int (length T) \<Longrightarrow>
   set (chunk_offsets T sz d i) =
     (if trim (chunk_at T sz i) \<noteq> [] then {i} else {}) \<union> set (chunk_offsets T sz d (i + d))"
  by (subst chunk_offsets.simps) simp

lemma coverage_from:
  "0 < d \<Longrightarrow> d \<le> sz \<Longrightarrow> 0 \<le> i \<Longrightarrow> i \<le> int p \<Longrightarrow> p < length T \<Longrightarrow>
   (\<forall>j. 0 \<le> j \<and> j \<le> int p \<and> int p < j + sz \<longrightarrow> trim (chunk_at T sz j) \<noteq> []) \<Longrightarrow>
   \<exists>j \<in> set (chunk_offsets T sz d i). j \<le> int p \<and> int p < j + int (length (chunk_at T sz j))"
proof (induction T sz d i rule: chunk_offsets.induct)
  case (1 T sz d i)
  have lt: "i < int (length T)" using "1.prems" by linarith
  have un: "set (chunk_offsets T sz d i) =
      (if trim (chunk_at T sz i) \<noteq> [] then {i} else {}) \<union> set (chunk_offsets T sz d (i + d))"
    using "1.prems" lt by (intro chunk_offsets_unfold) simp_all
  show ?case
  proof (cases "int p < i + d")
    case True
    then have "int p < i + sz" using "1.prems" by linarith
    then have nb: "trim (chunk_at T sz i) \<noteq> []" using "1.prems" by blast
    have "chunk_at T sz i = take (nat sz) (drop (nat i) T)"
      using "1.prems" by (intro chunk_at_take_drop) linarith+
    then have "int (length (chunk_at T sz i)) = min sz (int (length T) - i)"
      using "1.prems" lt by (simp add: min_def) linarith
    then have "int p < i + int (length (chunk_at T sz i))"
      using \<open>int p < i + sz\<close> "1.prems" by (simp add: min_def split: if_splits)
    with nb un "1.prems" show ?thesis by auto
  next
    case False
    then have "i + d \<le> int p" by simp
    moreover have "0 \<le> i + d" using "1.prems" by linarith
    ultimately have "\<exists>j \<in> set (chunk_offsets T sz d (i + d)).
        j \<le> int p \<and> int p < j + int (length (chunk_at T sz j))"
      using "1.IH" "1.prems" lt by blast
    with un show ?thesis by auto
  qed
qed

lemma last_chars_zero: "last_chars 0 s = []"
  by (simp add: last_chars_def)

lemma chunkText_returns_iff:
  "(\<exists>cs. chunkText text sz ov = Some cs) \<longleftrightarrow> (ov < sz \<or> cleanText text = [])"
proof (cases "ov < sz")
  case True
  then show ?thesis by (simp add: chunkText_closed_form)
next
  case False
  then show ?thesis
    by (cases "cleanText text = []") (simp_all add: chunkText_empty chunkText_no_list)
qed

text \<open>The loop on an engine with bounded arrays.\<close>

lemma chunk_loop_capped_offsets:
  "0 < sz - ov \<Longrightarrow> length acc \<le> cap \<Longrightarrow>
   chunk_loop_capped cap T sz ov i acc =
     (if length acc + length (chunk_offsets T sz (sz - ov) i) \<le> cap
      then Some (Inr (acc @ map (chunk_at T sz) (chunk_offsets T sz (sz - ov) i)))
      else Some (Inl RangeError))"
proof (induction T sz "sz - ov" i arbitrary: acc rule: chunk_offsets.induct)
  case (1 T sz i)
  show ?case
  proof (cases "i < int (length T)")
    case False
    then show ?thesis
      using "1.prems" by (subst chunk_loop_capped.simps) (simp add: chunk_offsets_stop)
  next
    case lt: True
    show ?thesis
    proof (cases "trim (chunk_at T sz i) = []")
      case True
      then have o: "chunk_offsets T sz (sz - ov) i = chunk_offsets T sz (sz - ov) (i + (sz - ov))"
        using lt "1.prems" by (subst chunk_offsets.simps) simp
      have "chunk_loop_capped cap T sz ov i acc
            = chunk_loop_capped cap T sz ov (i + (sz - ov)) acc"
        using lt True by (subst chunk_loop_capped.simps) (simp add: chunk_at_def)
      then show ?thesis using "1.hyps" [of acc] lt "1.prems" o by simp
    next
      case False
      then have o: "chunk_offsets T sz (sz - ov) i = i # chunk_offsets T sz (sz - ov) (i + (sz - ov))"
        using lt "1.prems" by (subst chunk_offsets.simps) simp
      show ?thesis
      proof (cases "length acc < cap")
        case True
        have "chunk_loop_capped cap T sz ov i acc
              = chunk_loop_capped cap T sz ov (i + (sz - ov)) (acc @ [chunk_at T sz i])"
          using lt False True by (subst chunk_loop_capped.simps) (simp add: chunk_at_def)
        then show ?thesis
          using "1.hyps" [of "acc @ [chunk_at T sz i]"] lt "1.prems" o True by simp
      next
        case full: False
        have "chunk_loop_capped cap T sz ov i acc = Some (Inl RangeError)"
          using lt False full by (subst chunk_loop_capped.simps) (simp add: chunk_at_def)
        then show ?thesis using o full by simp
      qed
    qed
  qed
qed

lemma chunk_loop_capped_stride0:
  assumes nb: "trim (substring T 0 sz) \<noteq> []" and ne: "T \<noteq> []"
  shows "length acc \<le> cap \<Longrightarrow> chunk_loop_capped cap T sz sz 0 acc = Some (Inl RangeError)"
proof (induction "cap - length acc" arbitrary: acc)
  case 0
  then have "\<not> length acc < cap" by simp
  then show ?case using nb ne by (subst chunk_loop_capped.simps) simp
next
  case (Suc n)
  then have lt: "length acc < cap" by simp
  have "chunk_loop_capped cap T sz sz 0 acc
        = chunk_loop_capped cap T sz sz 0 (acc @ [substring T 0 sz])"
    using nb ne lt by (subst chunk_loop_capped.simps) simp
  moreover have "chunk_loop_capped cap T sz sz 0 (acc @ [substring T 0 sz]) = Some (Inl RangeError)"
    using Suc lt by (intro Suc.hyps) simp_all
  ultimately show ?case by simp
qed

lemma substring_nonpositive: "a \<le> 0 \<Longrightarrow> b \<le> 0 \<Longrightarrow> substring s a b = []"
  by (simp add: substring_def clamp_index_def)

lemma chunk_loop_capped_forever_aux:
  assumes "chunk_loop_capped cap T sz ov i acc = Some r"
  shows "\<not> (sz \<le> ov \<and> (sz < ov \<or> sz < 1) \<and> sz \<le> int cap \<and> T \<noteq> [] \<and> i \<le> 0
            \<and> int (length acc) \<le> - i)"
proof (rule chunk_loop_capped.raw_induct
        [where P = "\<lambda>cap T sz ov i acc r.
           \<not> (sz \<le> ov \<and> (sz < ov \<or> sz < 1) \<and> sz \<le> int cap \<and> T \<noteq> [] \<and> i \<le> 0
              \<and> int (length acc) \<le> - i)", OF _ assms])
  fix f cap T sz ov i acc r
  assume IH: "\<And>cap T sz ov i acc r. f cap T sz ov i acc = Some r \<Longrightarrow>
           \<not> (sz \<le> ov \<and> (sz < ov \<or> sz < 1) \<and> sz \<le> int cap \<and> T \<noteq> [] \<and> i \<le> 0
              \<and> int (length acc) \<le> - i)"
    and eq: "(if i < int (length T) then
        (if length (trim (substring T i (i + sz))) > 0 then
           (if length acc < cap then
              f cap T sz ov (i + (sz - ov)) (acc @ [substring T i (i + sz)])
            else Some (Inl RangeError))
         else f cap T sz ov (i + (sz - ov)) acc)
      else Some (Inr acc)) = Some r"
  show "\<not> (sz \<le> ov \<and> (sz < ov \<or> sz < 1) \<and> sz \<le> int cap \<and> T \<noteq> [] \<and> i \<le> 0
              \<and> int (length acc) \<le> - i)"
  proof
    assume inv: "sz \<le> ov \<and> (sz < ov \<or> sz < 1) \<and> sz \<le> int cap \<and> T \<noteq> [] \<and> i \<le> 0
              \<and> int (length acc) \<le> - i"
    then have lt: "i < int (length T)" by (cases T) auto
    show False
    proof (cases "trim (substring T i (i + sz)) = []")
      case True
      with eq lt have "f cap T sz ov (i + (sz - ov)) acc = Some r" by simp
      from IH [OF this] inv show False by auto
    next
      case False
      then have "\<not> (i + sz \<le> 0)" using inv substring_nonpositive [of i "i + sz" T] by (auto simp: trim_def)
      then have pos: "1 \<le> i + sz" by simp
      then have room: "length acc < cap" using inv by linarith
      have strict: "sz < ov" using pos inv by linarith
      from eq lt False room
      have "f cap T sz ov (i + (sz - ov)) (acc @ [substring T i (i + sz)]) = Some r" by simp
      from IH [OF this] inv strict show False by auto
    qed
  qed
qed

lemma chunk_loop_capped_forever:
  "sz \<le> ov \<Longrightarrow> sz < ov \<or> sz < 1 \<Longrightarrow> sz \<le> int cap \<Longrightarrow> T \<noteq> [] \<Longrightarrow>
   chunk_loop_capped cap T sz ov 0 [] = None"
  using chunk_loop_capped_forever_aux [of cap T sz ov 0 "[]"]
  by (cases "chunk_loop_capped cap T sz ov 0 []") auto

lemma chunk_loop_capped_no_list_aux:
  assumes "chunk_loop_capped cap T sz ov i acc = Some r"
  shows "\<not> (sz \<le> ov \<and> i < int (length T) \<and> (\<exists>cs. r = Inr cs))"
  by (rule chunk_loop_capped.raw_induct
        [where P = "\<lambda>cap T sz ov i acc r.
           \<not> (sz \<le> ov \<and> i < int (length T) \<and> (\<exists>cs. r = Inr cs))", OF _ assms])
     (fastforce split: if_splits)

lemma cleanText_first_chunk_nonblank:
  assumes "cleanText text \<noteq> []" "1 \<le> sz"
  shows "trim (substring (cleanText text) 0 sz) \<noteq> []"
proof -
  let ?T = "cleanText text"
  have "substring ?T 0 (0 + sz) = take (nat sz) (drop (nat 0) ?T)"
    using assms by (intro substring_take_drop) simp_all
  then have "substring ?T 0 sz = take (nat sz) ?T" by simp
  moreover have "hd ?T \<in> set (take (nat sz) ?T)"
    using assms by (cases ?T) (auto simp: take_Cons' nat_le_iff)
  ultimately show ?thesis
    using cleanText_hd [OF assms(1)] by (auto simp: trim_empty_iff)
qed

section \<open>Indexing, retrieval and context assembly: lemmas\<close>

lemma saveChunks_rows_mono:
  "saveChunksAsEmbeddings sv cs md st = (r, st') \<Longrightarrow> rows st \<subseteq># rows st'"
  by (auto simp: saveChunksAsEmbeddings_def Let_def)

lemma index_loop_rows_mono:
  "index_loop sv fs st = Some (r, st') \<Longrightarrow> rows st \<subseteq># rows st'"
proof (induction fs arbitrary: st r st')
  case Nil
  then show ?case by simp
next
  case (Cons f fs)
  show ?case
  proof (cases "is_pdf f")
    case False
    with Cons show ?thesis by simp
  next
    case pdf: True
    let ?st1 = "st\<lparr>console := console st @ [LogIndexing (path_join sv f)]\<rparr>"
    show ?thesis
    proof (cases "getText sv (path_join sv f)")
      case (Inl e)
      with pdf Cons.prems show ?thesis by (auto simp: Let_def)
    next
      case (Inr pdfText)
      let ?text = "trim (case pdfText of None \<Rightarrow> [] | Some t \<Rightarrow> t)"
      show ?thesis
      proof (cases "?text = []")
        case True
        with pdf Inr Cons.prems have
          "index_loop sv fs (?st1\<lparr>console := console ?st1 @ [WarnNoText f]\<rparr>) = Some (r, st')"
          by (simp add: Let_def)
        from Cons.IH [OF this] show ?thesis by simp
      next
        case False
        from pdf Inr False Cons.prems obtain textChunks where
          tc: "chunkText_default ?text = Some textChunks"
          by (cases "chunkText_default ?text") (auto simp: Let_def)
        let ?md = "\<lparr>md_title = parse_name sv f, md_source = js ''pdf'',
                     md_path = path_join sv f\<rparr>"
        obtain e2 st2 where sv2: "saveChunksAsEmbeddings sv textChunks ?md ?st1 = (e2, st2)"
          by (cases "saveChunksAsEmbeddings sv textChunks ?md ?st1") auto
        have m1: "rows st \<subseteq># rows st2" using saveChunks_rows_mono [OF sv2] by simp
        show ?thesis
        proof (cases e2)
          case None
          with pdf Inr False tc sv2 Cons.prems have "index_loop sv fs st2 = Some (r, st')"
            by (simp add: Let_def)
          from Cons.IH [OF this] have "rows st2 \<subseteq># rows st'" .
          with m1 show ?thesis by (rule subset_mset.order_trans)
        next
          case (Some e)
          with pdf Inr False tc sv2 Cons.prems have "st' = st2" by (simp add: Let_def)
          with m1 show ?thesis by simp
        qed
      qed
    qed
  qed
qed

lemma rejection_Some_iff:
  "(\<exists>e. rejection os = Some e) \<longleftrightarrow> (\<exists>oc \<in> set os. \<forall>r. oc \<noteq> Persisted r)"
  by (induction os rule: rejection.induct) auto

lemma chunkText_default_total: "\<exists>cs. chunkText_default t = Some cs"
  by (simp add: chunkText_default_def chunkText_closed_form)

lemma index_loop_returns: "\<exists>r st'. index_loop sv fs st = Some (r, st')"
proof (induction fs arbitrary: st)
  case Nil
  show ?case by simp
next
  case (Cons f fs)
  have t: "\<And>t. chunkText_default t \<noteq> None"
    using chunkText_default_total by (metis option.distinct(1))
  show ?case
    using Cons.IH by (auto simp: t Let_def split: sum.splits option.splits prod.splits)
qed

lemma index_loop_append:
  "index_loop sv pre st0 = Some (None, st) \<Longrightarrow>
   index_loop sv (pre @ rest) st0 = index_loop sv rest st"
  by (induction pre arbitrary: st0)
     (auto simp: Let_def split: if_splits sum.splits option.splits prod.splits)

lemma match_documents_props:
  "(\<forall>m \<in> set (match_documents d tbl q thr n). thr < similarity m) \<and>
   length (match_documents d tbl q thr n) \<le> n \<and>
   sorted_wrt (\<lambda>a b. similarity b \<le> similarity a) (match_documents d tbl q thr n)"
proof (intro conjI ballI)
  fix m
  assume "m \<in> set (match_documents d tbl q thr n)"
  then have "m \<in> set (filter (\<lambda>m. thr < similarity m) (map (to_match d q) tbl))"
    unfolding match_documents_def by (auto dest: in_set_takeD)
  then show "thr < similarity m" by simp
next
  show "length (match_documents d tbl q thr n) \<le> n"
    by (simp add: match_documents_def)
next
  let ?xs = "filter (\<lambda>m. thr < similarity m) (map (to_match d q) tbl)"
  have "sorted (map (\<lambda>m. - similarity m) (sort_key (\<lambda>m. - similarity m) ?xs))"
    by (rule sorted_sort_key)
  then have "sorted_wrt (\<lambda>a b. similarity b \<le> similarity a) (sort_key (\<lambda>m. - similarity m) ?xs)"
    by (simp add: sorted_map)
  then show "sorted_wrt (\<lambda>a b. similarity b \<le> similarity a) (match_documents d tbl q thr n)"
    unfolding match_documents_def by (rule sorted_wrt_take)
qed

lemma foldl_append_concat:
  "foldl (\<lambda>acc x. acc @ g x) a xs = a @ concat (map g xs)"
  by (induction xs arbitrary: a) simp_all

lemma enumerate_sections:
  "map (\<lambda>(idx, r). context_section idx r) (enumerate n data) =
   map (\<lambda>i. context_section (n + i) (data ! i)) [0..<length data]"
  by (rule nth_equalityI) (simp_all add: nth_enumerate_eq)

lemma context_section_nonempty: "context_section idx r \<noteq> []"
  by (simp add: context_section_def js_def)

lemma build_context_closed_form:
  "build_context data =
     (if data = [] then js ''No relevant context found.''
      else concat (map (\<lambda>i. context_section i (data ! i)) [0..<length data]))"
proof -
  have f: "foldl (\<lambda>context (idx, r). context @ context_section idx r) [] (enumerate 0 data)
        = concat (map (\<lambda>i. context_section i (data ! i)) [0..<length data])"
    using foldl_append_concat [of "\<lambda>(idx, r). context_section idx r" "[]" "enumerate 0 data"]
      enumerate_sections [of 0 data]
    by (simp add: case_prod_unfold)
  have "concat (map (\<lambda>i. context_section i (data ! i)) [0..<length data]) = [] \<longleftrightarrow> data = []"
    by (cases data) (auto simp: context_section_nonempty upt_conv_Cons)
  then show ?thesis using f by (simp add: build_context_def Let_def)
qed

lemma processQuery_retrieve:
  "retrieve sv query = Inr data \<Longrightarrow>
   fst (processQuery sv query) = create_chat sv (build_messages (build_context data) query)"
  by (auto simp: retrieve_def processQuery_def Let_def split: sum.splits)


section \<open>The chunker: claims\<close>

lemmas js_eval =
  js_def cleanText_def trim_def is_ws_def SPACE_def substring_def clamp_index_def chunk_at_def




text \<open>
  Claim C2, as the code has it. \<open>chunkText\<close> checks nothing and rejects no pair of
  sizes. With an empty clean text it returns the empty list. With
  \<open>chunkOverlap < chunkSize\<close> it terminates: it returns the chunk list, unless that
  list is longer than the engine's arrays can be, when \<open>push\<close> throws a
  \<open>RangeError\<close>. With \<open>chunkOverlap \<ge> chunkSize\<close> and a non-empty clean text it
  never returns a list: for \<open>chunkOverlap = chunkSize \<ge> 1\<close> the offset stays 0, a
  chunk is pushed on every pass and \<open>push\<close> throws a \<open>RangeError\<close> once the array is
  full; for \<open>chunkOverlap > chunkSize\<close> or \<open>chunkSize \<le> 0\<close> (and \<open>chunkSize\<close> within
  the array limit) the loop runs forever.
\<close>

theorem chunkText_outcomes:
  "(cleanText text = [] \<longrightarrow> chunkText_capped cap text sz ov = Some (Inr []))
   \<and> (ov < sz \<longrightarrow>
        (\<exists>cs. chunkText text sz ov = Some cs \<and>
              chunkText_capped cap text sz ov =
                (if length cs \<le> cap then Some (Inr cs) else Some (Inl RangeError))))
   \<and> (cleanText text \<noteq> [] \<and> ov = sz \<and> 1 \<le> sz \<longrightarrow>
        chunkText_capped cap text sz ov = Some (Inl RangeError))
   \<and> (cleanText text \<noteq> [] \<and> sz \<le> ov \<and> (sz < ov \<or> sz < 1) \<and> sz \<le> int cap \<longrightarrow>
        chunkText_capped cap text sz ov = None)
   \<and> (cleanText text \<noteq> [] \<and> sz \<le> ov \<longrightarrow>
        chunkText text sz ov = None \<and> (\<forall>cs. chunkText_capped cap text sz ov \<noteq> Some (Inr cs)))"
proof (intro conjI impI)
  assume "cleanText text = []"
  then show "chunkText_capped cap text sz ov = Some (Inr [])"
    by (simp add: chunkText_capped_def chunk_loop_capped.simps)
next
  assume lt: "ov < sz"
  let ?cs = "map (chunk_at (cleanText text) sz) (chunk_offsets (cleanText text) sz (sz - ov) 0)"
  have "chunkText text sz ov = Some ?cs" using lt by (simp add: chunkText_closed_form)
  moreover have "chunkText_capped cap text sz ov =
      (if length ?cs \<le> cap then Some (Inr ?cs) else Some (Inl RangeError))"
    using lt chunk_loop_capped_offsets [where acc = "[]" and i = 0 and T = "cleanText text"
        and sz = sz and ov = ov and cap = cap]
    by (simp add: chunkText_capped_def)
  ultimately show "\<exists>cs. chunkText text sz ov = Some cs \<and>
              chunkText_capped cap text sz ov =
                (if length cs \<le> cap then Some (Inr cs) else Some (Inl RangeError))"
    by blast
next
  assume a: "cleanText text \<noteq> [] \<and> ov = sz \<and> 1 \<le> sz"
  then have "trim (substring (cleanText text) 0 sz) \<noteq> []"
    by (intro cleanText_first_chunk_nonblank) simp_all
  then show "chunkText_capped cap text sz ov = Some (Inl RangeError)"
    using a chunk_loop_capped_stride0 [of "cleanText text" sz "[]" cap]
    by (simp add: chunkText_capped_def)
next
  assume "cleanText text \<noteq> [] \<and> sz \<le> ov \<and> (sz < ov \<or> sz < 1) \<and> sz \<le> int cap"
  then show "chunkText_capped cap text sz ov = None"
    by (simp add: chunkText_capped_def chunk_loop_capped_forever)
next
  assume a: "cleanText text \<noteq> [] \<and> sz \<le> ov"
  then show "chunkText text sz ov = None" by (simp add: chunkText_no_list)
  show "\<forall>cs. chunkText_capped cap text sz ov \<noteq> Some (Inr cs)"
  proof (intro allI notI)
    fix cs
    assume "chunkText_capped cap text sz ov = Some (Inr cs)"
    then have "chunk_loop_capped cap (cleanText text) sz ov 0 [] = Some (Inr cs)"
      by (simp add: chunkText_capped_def)
    from chunk_loop_capped_no_list_aux [OF this] a show False by (cases "cleanText text") auto
  qed
qed

theorem chunkText_outcomes_witness:
  "(200 :: int) < 1000 \<and>
   chunkText (js ''a b'') 1000 200 = Some [js ''a b''] \<and>
   chunkText_capped max_array_length (js ''a b'') 1000 200 = Some (Inr [js ''a b'']) \<and>
   cleanText (js ''a'') \<noteq> [] \<and> (1 :: int) \<le> 1 \<and>
   chunkText_capped max_array_length (js ''a'') 1 1 = Some (Inl RangeError) \<and>
   (1 :: int) < 2 \<and> (1 :: int) \<le> int max_array_length \<and>
   chunkText_capped max_array_length (js ''a'') 1 2 = None \<and>
   cleanText (js ''   '') = [] \<and>
   chunkText_capped max_array_length (js ''   '') 1 1 = Some (Inr [])"
proof -
  have c: "chunkText (js ''a b'') 1000 200 = Some [js ''a b'']"
    by (simp add: chunkText_def chunk_loop.simps js_eval)
  have a: "cleanText (js ''a'') \<noteq> []" and e: "cleanText (js ''   '') = []"
    by (simp_all add: js_eval)
  have m: "(1 :: int) \<le> int max_array_length" by (simp add: max_array_length_def)
  have r1: "chunkText_capped max_array_length (js ''a b'') 1000 200 = Some (Inr [js ''a b''])"
    using chunkText_outcomes [of "js ''a b''" max_array_length 1000 200] c
    by (simp add: max_array_length_def)
  have r2: "chunkText_capped max_array_length (js ''a'') 1 1 = Some (Inl RangeError)"
    using chunkText_outcomes [of "js ''a''" max_array_length 1 1] a by simp
  have r3: "chunkText_capped max_array_length (js ''a'') 1 2 = None"
    using chunkText_outcomes [of "js ''a''" max_array_length 1 2] a m by simp
  have r4: "chunkText_capped max_array_length (js ''   '') 1 1 = Some (Inr [])"
    using chunkText_outcomes [of "js ''   ''" max_array_length 1 1] e by simp
  from c a e m r1 r2 r3 r4 show ?thesis by simp
qed

text \<open>
  Claim C2 as stated fails: with size 1 and overlap 2 the call on \<open>a\<close> is not
  rejected; it pushes \<open>a\<close> at offset 0, and from then on the offset is negative, every
  chunk is empty and the loop runs forever.
\<close>

theorem chunkText_larger_overlap_runs_forever:
  "(1 :: int) \<le> 2 \<and> cleanText (js ''a'') = js ''a'' \<and>
   chunkText (js ''a'') 1 2 = None \<and>
   chunkText_capped max_array_length (js ''a'') 1 2 = None"
proof -
  have a: "cleanText (js ''a'') = js ''a''" by (simp add: js_eval)
  then have n: "cleanText (js ''a'') \<noteq> []" by (simp add: js_def)
  have "chunkText (js ''a'') 1 2 = None" using n by (simp add: chunkText_no_list)
  moreover have "chunkText_capped max_array_length (js ''a'') 1 2 = None"
    using n by (simp add: chunkText_capped_def chunk_loop_capped_forever max_array_length_def)
  ultimately show ?thesis using a by simp
qed

text \<open>
  Claim C4, as the code has it. For \<open>0 \<le> chunkOverlap < chunkSize\<close> the call
  returns the chunks cut at the pushed offsets, every chunk has at most \<open>chunkSize\<close>
  code units, and a position of the clean text lies in the range of a pushed chunk when
  \<open>chunkSize \<ge> 2\<close> or the position holds a character other than a space.
\<close>

theorem chunk_coverage:
  assumes "0 \<le> ov" "ov < sz"
  shows "chunkText text sz ov =
           Some (map (chunk_at (cleanText text) sz) (chunk_offsets (cleanText text) sz (sz - ov) 0))
         \<and> (\<forall>c \<in> set (map (chunk_at (cleanText text) sz)
                          (chunk_offsets (cleanText text) sz (sz - ov) 0)). int (length c) \<le> sz)
         \<and> (\<forall>p < length (cleanText text). 2 \<le> sz \<or> \<not> is_ws (cleanText text ! p) \<longrightarrow>
               covered (chunk_ranges (cleanText text) sz (sz - ov)) p)"
proof (intro conjI allI impI ballI)
  show "chunkText text sz ov =
           Some (map (chunk_at (cleanText text) sz) (chunk_offsets (cleanText text) sz (sz - ov) 0))"
    using assms by (simp add: chunkText_closed_form)
next
  fix c
  assume "c \<in> set (map (chunk_at (cleanText text) sz) (chunk_offsets (cleanText text) sz (sz - ov) 0))"
  then obtain j where j: "j \<in> set (chunk_offsets (cleanText text) sz (sz - ov) 0)"
    and c: "c = chunk_at (cleanText text) sz j" by auto
  have "0 \<le> j" using chunk_offsets_member [OF j] by simp
  then have "c = take (nat sz) (drop (nat j) (cleanText text))"
    using c assms by (simp add: chunk_at_take_drop)
  then show "int (length c) \<le> sz" using assms by simp
next
  fix p
  assume p: "p < length (cleanText text)"
    and h: "2 \<le> sz \<or> \<not> is_ws (cleanText text ! p)"
  let ?T = "cleanText text"
  have nb: "\<forall>j. 0 \<le> j \<and> j \<le> int p \<and> int p < j + sz \<longrightarrow> trim (chunk_at ?T sz j) \<noteq> []"
  proof (intro allI impI)
    fix j
    assume j: "0 \<le> j \<and> j \<le> int p \<and> int p < j + sz"
    from h show "trim (chunk_at ?T sz j) \<noteq> []"
    proof
      assume "2 \<le> sz"
      then show ?thesis using j p by (intro cleanText_chunk_nonblank) linarith+
    next
      assume nw: "\<not> is_ws (?T ! p)"
      have sz: "0 \<le> sz" using assms by linarith
      have "nat j + (p - nat j) < length ?T" "p - nat j < nat sz" using j p by linarith+
      then have "?T ! (nat j + (p - nat j)) \<in> set (take (nat sz) (drop (nat j) ?T))"
        by (rule slice_nth_member)
      moreover have "nat j + (p - nat j) = p" using j by linarith
      ultimately have "?T ! p \<in> set (chunk_at ?T sz j)"
        using j sz by (simp add: chunk_at_take_drop)
      with nw show ?thesis by (auto simp: trim_empty_iff)
    qed
  qed
  have "\<exists>j \<in> set (chunk_offsets ?T sz (sz - ov) 0).
          j \<le> int p \<and> int p < j + int (length (chunk_at ?T sz j))"
    using assms p nb by (intro coverage_from) simp_all
  then show "covered (chunk_ranges ?T sz (sz - ov)) p"
    by (auto simp: covered_def chunk_ranges_def list_ex_iff)
qed

theorem chunk_coverage_witness:
  "(0 :: int) \<le> 1 \<and> (1 :: int) < 2 \<and> 1 < length (cleanText (js ''a b'')) \<and>
   covered (chunk_ranges (cleanText (js ''a b'')) 2 (2 - 1)) 1"
proof -
  have h: "1 < length (cleanText (js ''a b''))" by (simp add: js_eval)
  have "\<forall>p < length (cleanText (js ''a b'')).
          (2 :: int) \<le> 2 \<or> \<not> is_ws (cleanText (js ''a b'') ! p) \<longrightarrow>
          covered (chunk_ranges (cleanText (js ''a b'')) 2 (2 - 1)) p"
    using chunk_coverage [of 1 2 "js ''a b''"] by simp
  then show ?thesis using h by simp
qed

text \<open>
  Claim C4 as stated fails: with size 1 and overlap 0 the chunk cut at offset 1 of
  \<open>a b\<close> is a single space, which the loop discards; position 1 is in no range.
\<close>

theorem chunk_coverage_gap:
  "(0 :: int) < 1 \<and> cleanText (js ''a b'') = js ''a b'' \<and>
   chunkText (js ''a b'') 1 0 = Some [js ''a'', js ''b''] \<and>
   chunk_ranges (cleanText (js ''a b'')) 1 (1 - 0) = [(0, 1), (2, 3)] \<and>
   \<not> covered (chunk_ranges (cleanText (js ''a b'')) 1 (1 - 0)) 1"
  by (simp add: chunkText_def chunk_loop.simps chunk_ranges_def covered_def
        chunk_offsets.simps js_eval)

text \<open>
  Claim C5, as the code has it. For \<open>chunkOverlap < chunkSize\<close> and two consecutive
  chunks, the last \<open>chunkOverlap\<close> code units of the first equal the first
  \<open>chunkOverlap\<close> code units of the second whenever the first chunk has the full length
  \<open>chunkSize\<close>; when \<open>2 * chunkOverlap \<le> chunkSize\<close> (as with the defaults) that is
  every pair but possibly the last.
\<close>

theorem chunk_overlap:
  assumes "ov < sz" and cs: "chunkText text sz ov = Some cs" and i: "Suc i < length cs"
    and full: "length (cs ! i) = nat sz \<or> (2 * ov \<le> sz \<and> Suc (Suc i) < length cs)"
  shows "last_chars (nat ov) (cs ! i) = take (nat ov) (cs ! Suc i)"
proof (cases "ov \<le> 0")
  case True
  then show ?thesis by (simp add: last_chars_zero)
next
  case False
  let ?T = "cleanText text"
  let ?d = "sz - ov"
  let ?offs = "chunk_offsets ?T sz ?d 0"
  have sz: "2 \<le> sz" and d: "0 < ?d" using False assms(1) by linarith+
  have csd: "cs = map (chunk_at ?T sz) ?offs"
    using cs assms(1) by (simp add: chunkText_closed_form)
  then have len: "length cs = length ?offs" by simp
  have nth: "\<And>k. k < length ?offs \<Longrightarrow> ?offs ! k = int k * ?d"
    using chunk_offsets_nth [OF sz d, of 0 _ "text"] by simp
  have bound: "\<And>k. k < length ?offs \<Longrightarrow> int k * ?d < int (length ?T)"
    using nth chunk_offsets_member [of _ ?T sz ?d 0] by (metis nth_mem)
  define a where "a = int i * ?d"
  have a0: "0 \<le> a" using d by (simp add: a_def)
  have ci: "cs ! i = take (nat sz) (drop (nat a) ?T)"
    using csd i len nth [of i] a0 sz by (simp add: a_def chunk_at_take_drop)
  have nx: "int (Suc i) * ?d = a + ?d" by (simp add: a_def algebra_simps)
  have cn: "cs ! Suc i = take (nat sz) (drop (nat (a + ?d)) ?T)"
    using csd i len nth [of "Suc i"] a0 d sz nx by (simp add: chunk_at_take_drop)
  have fit: "a + sz \<le> int (length ?T)"
    using full
  proof
    assume "length (cs ! i) = nat sz"
    then show ?thesis using ci a0 sz by (simp add: min_def split: if_splits)
  next
    assume h: "2 * ov \<le> sz \<and> Suc (Suc i) < length cs"
    then have "Suc (Suc i) < length ?offs" using len by simp
    then have "int (Suc (Suc i)) * ?d < int (length ?T)" by (rule bound)
    moreover have "int (Suc (Suc i)) * ?d = a + 2 * ?d" by (simp add: a_def algebra_simps)
    ultimately have "a + 2 * ?d < int (length ?T)" by simp
    moreover have "sz \<le> 2 * ?d" using h by simp
    ultimately show ?thesis by linarith
  qed
  have li: "length (cs ! i) = nat sz" using ci fit a0 sz by simp
  have "last_chars (nat ov) (cs ! i) = drop (nat sz - nat ov) (take (nat sz) (drop (nat a) ?T))"
    using li ci by (simp add: last_chars_def)
  also have "\<dots> = take (nat sz - (nat sz - nat ov)) (drop (nat sz - nat ov) (drop (nat a) ?T))"
    by (simp add: drop_take)
  also have "nat sz - (nat sz - nat ov) = nat ov" using assms(1) False by linarith
  also have "drop (nat sz - nat ov) (drop (nat a) ?T) = drop (nat (a + ?d)) ?T"
  proof -
    have "nat sz - nat ov + nat a = nat (a + ?d)" using a0 d False by linarith
    then show ?thesis by (simp add: add.commute)
  qed
  finally have l: "last_chars (nat ov) (cs ! i) = take (nat ov) (drop (nat (a + ?d)) ?T)" .
  have "take (nat ov) (cs ! Suc i) = take (nat ov) (drop (nat (a + ?d)) ?T)"
    using cn assms(1) by (simp add: min_def)
  with l show ?thesis by simp
qed

theorem chunk_overlap_witness:
  "(1 :: int) < 3 \<and> chunkText (js ''abcd'') 3 1 = Some [js ''abc'', js ''cd''] \<and>
   last_chars (nat 1) ([js ''abc'', js ''cd''] ! 0) = take (nat 1) ([js ''abc'', js ''cd''] ! Suc 0)"
proof -
  have h: "chunkText (js ''abcd'') 3 1 = Some [js ''abc'', js ''cd'']"
    by (simp add: chunkText_def chunk_loop.simps js_eval)
  have "last_chars (nat 1) ([js ''abc'', js ''cd''] ! 0) = take (nat 1) ([js ''abc'', js ''cd''] ! Suc 0)"
    by (rule chunk_overlap [of 1 3 "js ''abcd''", OF _ h]) (simp_all add: js_def)
  then show ?thesis using h by simp
qed

text \<open>
  Claim C5 as stated fails: with size 4 and overlap 3 the text \<open>abcd\<close> gives four
  chunks; the second and third are not the last pair, and the last three code units of
  \<open>bcd\<close> are not the first three of \<open>cd\<close>.
\<close>

theorem chunk_overlap_short_pair:
  "(3 :: int) < 4 \<and>
   chunkText (js ''abcd'') 4 3 = Some [js ''abcd'', js ''bcd'', js ''cd'', js ''d''] \<and>
   Suc (Suc 1) < length [js ''abcd'', js ''bcd'', js ''cd'', js ''d''] \<and>
   last_chars (nat 3) ([js ''abcd'', js ''bcd'', js ''cd'', js ''d''] ! 1)
     \<noteq> take (nat 3) ([js ''abcd'', js ''bcd'', js ''cd'', js ''d''] ! Suc 1)"
  by (simp add: chunkText_def chunk_loop.simps last_chars_def js_eval)

text \<open>
  Claim C10. Whenever \<open>chunkOverlap < chunkSize\<close> the call returns, and every chunk
  of every returned list is non-empty after trimming, has no whitespace other than the
  space, and has no two whitespace code units in a row.
\<close>

theorem chunk_invariants:
  "(ov < sz \<longrightarrow> chunkText text sz ov \<noteq> None) \<and>
   (\<forall>cs. chunkText text sz ov = Some cs \<longrightarrow>
      (\<forall>c \<in> set cs. trim c \<noteq> [] \<and> (\<forall>u \<in> set c. is_ws u \<longrightarrow> u = SPACE) \<and> no_adjacent_ws c))"
proof (intro conjI allI impI)
  assume "ov < sz"
  then show "chunkText text sz ov \<noteq> None" by (simp add: chunkText_closed_form)
next
  fix cs
  assume cs: "chunkText text sz ov = Some cs"
  let ?T = "cleanText text"
  show "\<forall>c \<in> set cs. trim c \<noteq> [] \<and> (\<forall>u \<in> set c. is_ws u \<longrightarrow> u = SPACE) \<and> no_adjacent_ws c"
  proof
    fix c
    assume c: "c \<in> set cs"
    have lt: "ov < sz"
    proof (rule ccontr)
      assume n: "\<not> ov < sz"
      show False
      proof (cases "?T = []")
        case True
        with cs c show False by (simp add: chunkText_empty)
      next
        case False
        with n cs show False by (simp add: chunkText_no_list)
      qed
    qed
    then have "cs = map (chunk_at ?T sz) (chunk_offsets ?T sz (sz - ov) 0)"
      using cs by (simp add: chunkText_closed_form)
    then obtain j where j: "j \<in> set (chunk_offsets ?T sz (sz - ov) 0)" and cj: "c = chunk_at ?T sz j"
      using c by auto
    have g1: "trim c \<noteq> []" using chunk_offsets_member [OF j] cj by simp
    obtain m n where sl: "c = take n (drop m ?T)"
      using substring_is_slice [of ?T j "j + sz"] cj by (auto simp: chunk_at_def)
    have g2: "\<forall>u \<in> set c. is_ws u \<longrightarrow> u = SPACE"
      using sl cleanText_only_space [of _ "text"] by (meson in_set_dropD in_set_takeD)
    have g3: "no_adjacent_ws c"
      using sl by (simp add: no_adjacent_ws_take no_adjacent_ws_drop cleanText_no_adjacent)
    from g1 g2 g3
    show "trim c \<noteq> [] \<and> (\<forall>u \<in> set c. is_ws u \<longrightarrow> u = SPACE) \<and> no_adjacent_ws c"
      by blast
  qed
qed

theorem chunk_invariants_witness:
  "(1 :: int) < 2 \<and> chunkText (js ''  a   b '') 2 1 \<noteq> None \<and>
   chunkText (js ''  a   b '') 2 1 = Some [js ''a '', js '' b'', js ''b''] \<and>
   trim (js ''a '') \<noteq> [] \<and> is_ws (js ''a '' ! 1) \<and> js ''a '' ! 1 = SPACE \<and>
   no_adjacent_ws (js ''a '')"
proof -
  have h: "chunkText (js ''  a   b '') 2 1 = Some [js ''a '', js '' b'', js ''b'']"
    by (simp add: chunkText_def chunk_loop.simps js_eval)
  have m: "js ''a '' \<in> set [js ''a '', js '' b'', js ''b'']" by simp
  have w: "is_ws (js ''a '' ! 1)" and u: "js ''a '' ! 1 \<in> set (js ''a '')"
    by (simp_all add: js_def is_ws_def)
  have t: "chunkText (js ''  a   b '') 2 1 \<noteq> None"
    and c: "trim (js ''a '') \<noteq> [] \<and> (\<forall>u \<in> set (js ''a ''). is_ws u \<longrightarrow> u = SPACE)
          \<and> no_adjacent_ws (js ''a '')"
    using chunk_invariants [of 1 2 "js ''  a   b ''"] h m by blast+
  from c u w have "js ''a '' ! 1 = SPACE" by blast
  with h t c w show ?thesis by simp
qed

section \<open>Indexing, retrieval and the query route: claims\<close>

lemmas index_eval =
  is_pdf_def toLowerCase_def lower_unit_def endsWith_def example_services_def
  example_getText_def chunkText_default_def chunkText_def chunk_loop.simps
  saveChunksAsEmbeddings_def save_chunk_def or_null_def Let_def empty_store_def
  good_row_def late_row_def store_after_good_def indexLocalDocs_def index_docs_route_def

lemmas query_eval =
  retrieve_def rpc_match_documents_def match_documents_def to_match_def example_services_def
  example_row_def replace_newlines_def match_one_def match_three_def

text \<open>
  Claim C3, as the code has it. Let the documents \<open>pre\<close> before \<open>f\<close> in the listing
  be indexed without error, leaving the store \<open>st\<close>, and let embedding or inserting
  some chunk of \<open>f\<close> fail. Then the whole indexing loop returns with an error; every
  row of \<open>st\<close> is still in the store; and the result is the one the loop gives when
  the listing ends at \<open>f\<close>: no document after \<open>f\<close> is processed.
\<close>

theorem chunk_failure_aborts_indexing:
  assumes earlier: "index_loop sv pre st0 = Some (None, st)"
    and pdf: "is_pdf f"
    and ext: "getText sv (path_join sv f) = Inr pdfText"
    and ne: "trim (case pdfText of None \<Rightarrow> [] | Some t \<Rightarrow> t) \<noteq> []"
    and tc: "chunkText_default (trim (case pdfText of None \<Rightarrow> [] | Some t \<Rightarrow> t)) = Some textChunks"
    and c: "c \<in> set textChunks"
    and bad: "\<forall>r. save_chunk sv \<lparr>md_title = parse_name sv f, md_source = js ''pdf'',
                                  md_path = path_join sv f\<rparr> c \<noteq> Persisted r"
  shows "\<exists>e st'. index_loop sv (pre @ f # fs) st0 = Some (Some e, st') \<and> rows st \<subseteq># rows st'
           \<and> index_loop sv (pre @ f # fs) st0 = index_loop sv (pre @ [f]) st0"
proof -
  let ?md = "\<lparr>md_title = parse_name sv f, md_source = js ''pdf'', md_path = path_join sv f\<rparr>"
  let ?st1 = "st\<lparr>console := console st @ [LogIndexing (path_join sv f)]\<rparr>"
  let ?os = "map (save_chunk sv ?md) textChunks"
  have "\<exists>oc \<in> set ?os. \<forall>r. oc \<noteq> Persisted r" using c bad by auto
  then obtain e where e: "rejection ?os = Some e" using rejection_Some_iff [of ?os] by blast
  obtain st2 where s: "saveChunksAsEmbeddings sv textChunks ?md ?st1 = (Some e, st2)"
    using e by (simp add: saveChunksAsEmbeddings_def Let_def)
  have r: "\<And>gs. index_loop sv (f # gs) st = Some (Some e, st2)"
    using pdf ext ne tc s by (simp add: Let_def)
  have a: "\<And>gs. index_loop sv (pre @ f # gs) st0 = Some (Some e, st2)"
    using index_loop_append [OF earlier] r by simp
  have "rows st \<subseteq># rows st2" using saveChunks_rows_mono [OF s] by simp
  then show ?thesis using a [of fs] a [of "[]"] by simp
qed

theorem chunk_failure_aborts_indexing_witness:
  "index_loop example_services [js ''blank.pdf'', js ''notes.txt'', js ''good.pdf''] empty_store
     = Some (None, store_after_good) \<and>
   is_pdf (js ''bad.PDF'') \<and>
   getText example_services (path_join example_services (js ''bad.PDF'')) = Inr (Some (js ''refused'')) \<and>
   trim (js ''refused'') \<noteq> [] \<and>
   chunkText_default (trim (js ''refused'')) = Some [js ''refused''] \<and>
   save_chunk example_services
     \<lparr>md_title = parse_name example_services (js ''bad.PDF''), md_source = js ''pdf'',
      md_path = path_join example_services (js ''bad.PDF'')\<rparr> (js ''refused'')
     = EmbeddingFailed (ServiceError 1) \<and>
   (\<exists>e st'. index_loop example_services
               ([js ''blank.pdf'', js ''notes.txt'', js ''good.pdf''] @ js ''bad.PDF'' # [js ''late.pdf''])
               empty_store = Some (Some e, st') \<and>
            rows store_after_good \<subseteq># rows st' \<and>
            index_loop example_services
               ([js ''blank.pdf'', js ''notes.txt'', js ''good.pdf''] @ js ''bad.PDF'' # [js ''late.pdf''])
               empty_store
            = index_loop example_services
               ([js ''blank.pdf'', js ''notes.txt'', js ''good.pdf''] @ [js ''bad.PDF'']) empty_store)"
proof -
  let ?md = "\<lparr>md_title = parse_name example_services (js ''bad.PDF''), md_source = js ''pdf'',
              md_path = path_join example_services (js ''bad.PDF'')\<rparr>"
  have h1: "index_loop example_services [js ''blank.pdf'', js ''notes.txt'', js ''good.pdf'']
      empty_store = Some (None, store_after_good)"
    by (simp add: index_eval js_eval)
  have h2: "is_pdf (js ''bad.PDF'')" by (simp add: index_eval js_eval)
  have h3: "getText example_services (path_join example_services (js ''bad.PDF''))
      = Inr (Some (js ''refused''))"
    by (simp add: index_eval js_eval)
  have h4: "trim (js ''refused'') \<noteq> []" by (simp add: js_eval)
  have h5: "chunkText_default (trim (js ''refused'')) = Some [js ''refused'']"
    by (simp add: index_eval js_eval)
  have h6: "save_chunk example_services ?md (js ''refused'') = EmbeddingFailed (ServiceError 1)"
    by (simp add: index_eval js_eval)
  have h7: "\<forall>r. save_chunk example_services ?md (js ''refused'') \<noteq> Persisted r"
    using h6 by simp
  have "\<exists>e st'. index_loop example_services
               ([js ''blank.pdf'', js ''notes.txt'', js ''good.pdf''] @ js ''bad.PDF'' # [js ''late.pdf''])
               empty_store = Some (Some e, st') \<and>
            rows store_after_good \<subseteq># rows st' \<and>
            index_loop example_services
               ([js ''blank.pdf'', js ''notes.txt'', js ''good.pdf''] @ js ''bad.PDF'' # [js ''late.pdf''])
               empty_store
            = index_loop example_services
               ([js ''blank.pdf'', js ''notes.txt'', js ''good.pdf''] @ [js ''bad.PDF'']) empty_store"
    by (rule chunk_failure_aborts_indexing
          [OF h1 h2 h3, where textChunks = "[js ''refused'']" and c = "js ''refused''"])
       (use h4 h5 h7 in simp_all)
  with h1 h2 h3 h4 h5 h6 show ?thesis by blast
qed

text \<open>
  Claim C3 as stated fails: in the example folder \<open>bad.PDF\<close> comes before
  \<open>late.pdf\<close>. The request ends with status 500 after \<open>bad.PDF\<close>; the store has
  the row of \<open>good.pdf\<close> only and the console has no line for \<open>late.pdf\<close>, though
  \<open>late.pdf\<close> on its own is indexed without error.
\<close>

theorem later_document_not_indexed:
  "readdir example_services =
     [js ''blank.pdf'', js ''notes.txt'', js ''good.pdf'', js ''bad.PDF'', js ''late.pdf''] \<and>
   index_docs_route example_services empty_store =
     Some (\<lparr>status = 500, body = ErrorDetails (js ''Failed to index local docs'') (ServiceError 1)\<rparr>,
           \<lparr>rows = {#good_row#},
            console = [LogIndexing (js ''MyDocs/blank.pdf''), WarnNoText (js ''blank.pdf''),
                       LogIndexing (js ''MyDocs/good.pdf''), LogIndexing (js ''MyDocs/bad.PDF'')]\<rparr>) \<and>
   indexLocalDocs (example_services\<lparr>readdir := [js ''late.pdf'']\<rparr>) empty_store =
     Some (None, \<lparr>rows = {#late_row#}, console = [LogIndexing (js ''MyDocs/late.pdf'')]\<rparr>)"
  by (simp add: index_eval js_eval)

text \<open>
  Claim C9. A PDF whose extracted text is missing, empty or only whitespace adds two
  console lines, the second a warning, and nothing else: the loop goes on with the
  remaining files from a store with the same rows, and on its own the document ends the
  loop without an error.
\<close>

theorem empty_text_skipped:
  assumes "is_pdf f"
    and "getText sv (path_join sv f) = Inr pdfText"
    and "trim (case pdfText of None \<Rightarrow> [] | Some t \<Rightarrow> t) = []"
  shows "index_loop sv (f # fs) st =
           index_loop sv fs
             (st\<lparr>console := console st @ [LogIndexing (path_join sv f), WarnNoText f]\<rparr>)
         \<and> index_loop sv [f] st =
             Some (None, st\<lparr>console := console st @ [LogIndexing (path_join sv f), WarnNoText f]\<rparr>)
         \<and> rows (st\<lparr>console := console st @ [LogIndexing (path_join sv f), WarnNoText f]\<rparr>) = rows st"
  using assms by (simp add: Let_def)

theorem empty_text_skipped_witness:
  "is_pdf (js ''blank.pdf'') \<and>
   getText example_services (path_join example_services (js ''blank.pdf''))
     = Inr (Some (js '' \<newline> '')) \<and>
   trim (js '' \<newline> '') = [] \<and>
   index_loop example_services [js ''blank.pdf''] empty_store =
     Some (None, empty_store\<lparr>console := console empty_store @
             [LogIndexing (path_join example_services (js ''blank.pdf'')),
              WarnNoText (js ''blank.pdf'')]\<rparr>)"
proof -
  have h1: "is_pdf (js ''blank.pdf'')" by (simp add: index_eval js_eval)
  have h2: "getText example_services (path_join example_services (js ''blank.pdf''))
      = Inr (Some (js '' \<newline> ''))"
    by (simp add: index_eval js_eval)
  have h3: "trim (js '' \<newline> '') = []" by (simp add: js_eval)
  have h3': "trim (case Some (js '' \<newline> '') of None \<Rightarrow> [] | Some t \<Rightarrow> t) = []"
    using h3 by simp
  show ?thesis
    using empty_text_skipped [OF h1 h2 h3', of "[]" empty_store] h1 h2 h3 by blast
qed

text \<open>
  Claim C6. Whatever the query, the matches the retriever returns all have a similarity
  strictly above 0.5, are at most 10, and come in descending order of similarity; they
  are the matches from which \<open>processQuery\<close> builds the context of its generation call.
\<close>

theorem retrieve_threshold_cap_order:
  assumes "retrieve sv query = Inr ms"
  shows "(\<forall>m \<in> set ms. 1 / 2 < similarity m) \<and> length ms \<le> 10 \<and>
         sorted_wrt (\<lambda>a b. similarity b \<le> similarity a) ms \<and>
         fst (processQuery sv query) = create_chat sv (build_messages (build_context ms) query)"
proof -
  obtain emb where "ms = match_documents (cosine_distance sv) (table sv) emb (1 / 2) 10"
    using assms
    by (auto simp: retrieve_def rpc_match_documents_def split: sum.splits option.splits)
  then show ?thesis
    using match_documents_props [where thr = "1 / 2" and n = 10] processQuery_retrieve [OF assms]
    by blast
qed

theorem retrieve_threshold_cap_order_witness:
  "retrieve example_services (js ''q'') = Inr [match_one, match_three] \<and>
   1 / 2 < similarity match_one \<and> 1 / 2 < similarity match_three \<and>
   length [match_one, match_three] \<le> 10 \<and>
   sorted_wrt (\<lambda>a b. similarity b \<le> similarity a) [match_one, match_three] \<and>
   similarity (to_match (cosine_distance example_services) [0] (table example_services ! 1)) = 1 / 2"
proof -
  have h: "retrieve example_services (js ''q'') = Inr [match_one, match_three]"
    by (simp add: query_eval js_def)
  have e: "similarity (to_match (cosine_distance example_services) [0]
             (table example_services ! 1)) = 1 / 2"
    by (simp add: query_eval)
  show ?thesis
    using retrieve_threshold_cap_order [OF h] h e by simp
qed

text \<open>
  Claim C7. The context is the sentinel for an empty result list and otherwise the
  concatenation, in rank order, of one section per match, numbered from 1, with the
  content trimmed. When the embedding and the search succeed, the user message of the
  generation call contains exactly this context after \<open>Context:\<close> and a line break.
\<close>

theorem context_assembly:
  "build_context data =
     (if data = [] then js ''No relevant context found.''
      else concat (map (\<lambda>i. js ''Chunk '' @ decimal (i + 1) @ js '':\<newline>''
                                @ trim (match_content (data ! i)) @ js ''\<newline>\<newline>'')
                     [0..<length data]))
   \<and> (create_embedding sv (replace_newlines query) = Inr emb \<and>
      rpc_match_documents sv emb (1 / 2) 10 = Inr data \<longrightarrow>
      (\<exists>system_message.
         snd (processQuery sv query) =
           [CallEmbedding (replace_newlines query), CallSearch emb,
            CallChat [system_message,
                      \<lparr>role = js ''user'',
                       msg_content = js ''Context:\<newline>'' @ build_context data
                          @ js ''\<newline>\<newline>Question: '' @ query
                          @ js ''\<newline>\<newline>Answer clearly and concisely.''\<rparr>]]))"
proof (intro conjI impI)
  show "build_context data =
     (if data = [] then js ''No relevant context found.''
      else concat (map (\<lambda>i. js ''Chunk '' @ decimal (i + 1) @ js '':\<newline>''
                                @ trim (match_content (data ! i)) @ js ''\<newline>\<newline>'')
                     [0..<length data]))"
    using build_context_closed_form [of data] by (simp add: context_section_def)
next
  assume "create_embedding sv (replace_newlines query) = Inr emb \<and>
      rpc_match_documents sv emb (1 / 2) 10 = Inr data"
  then show "\<exists>system_message.
         snd (processQuery sv query) =
           [CallEmbedding (replace_newlines query), CallSearch emb,
            CallChat [system_message,
                      \<lparr>role = js ''user'',
                       msg_content = js ''Context:\<newline>'' @ build_context data
                          @ js ''\<newline>\<newline>Question: '' @ query
                          @ js ''\<newline>\<newline>Answer clearly and concisely.''\<rparr>]]"
    by (simp add: processQuery_def Let_def build_messages_def)
qed

theorem context_assembly_witness:
  "build_context [match_one, match_three] =
     js ''Chunk 1:\<newline>one\<newline>\<newline>Chunk 2:\<newline>three\<newline>\<newline>'' \<and>
   build_context [] = js ''No relevant context found.'' \<and>
   create_embedding example_services (replace_newlines (js ''q'')) = Inr [0] \<and>
   rpc_match_documents example_services [0] (1 / 2) 10 = Inr [match_one, match_three] \<and>
   (\<exists>system_message.
      snd (processQuery example_services (js ''q'')) =
        [CallEmbedding (replace_newlines (js ''q'')), CallSearch [0],
         CallChat [system_message,
                   \<lparr>role = js ''user'',
                    msg_content = js ''Context:\<newline>'' @ build_context [match_one, match_three]
                       @ js ''\<newline>\<newline>Question: '' @ js ''q''
                       @ js ''\<newline>\<newline>Answer clearly and concisely.''\<rparr>]])"
proof -
  have e: "concat (map (\<lambda>i. js ''Chunk '' @ decimal (i + 1) @ js '':\<newline>''
                          @ trim (match_content ([match_one, match_three] ! i))
                          @ js ''\<newline>\<newline>'')
                    [0..<length [match_one, match_three]])
       = js ''Chunk 1:\<newline>one\<newline>\<newline>Chunk 2:\<newline>three\<newline>\<newline>''"
    by (simp add: upt_conv_Cons decimal.simps query_eval js_eval)
  have h1: "create_embedding example_services (replace_newlines (js ''q'')) = Inr [0]"
    by (simp add: query_eval js_def)
  have h2: "rpc_match_documents example_services [0] (1 / 2) 10 = Inr [match_one, match_three]"
    by (simp add: query_eval js_def)
  have c1: "build_context [match_one, match_three] =
     js ''Chunk 1:\<newline>one\<newline>\<newline>Chunk 2:\<newline>three\<newline>\<newline>''"
    using context_assembly [of "[match_one, match_three]" example_services "js ''q''" "[0]"] e
    by simp
  have c2: "build_context [] = js ''No relevant context found.''"
    using context_assembly [of "[]" example_services "js ''q''" "[0]"] by simp
  have c3: "\<exists>system_message.
      snd (processQuery example_services (js ''q'')) =
        [CallEmbedding (replace_newlines (js ''q'')), CallSearch [0],
         CallChat [system_message,
                   \<lparr>role = js ''user'',
                    msg_content = js ''Context:\<newline>'' @ build_context [match_one, match_three]
                       @ js ''\<newline>\<newline>Question: '' @ js ''q''
                       @ js ''\<newline>\<newline>Answer clearly and concisely.''\<rparr>]]"
    using context_assembly [of "[match_one, match_three]" example_services "js ''q''" "[0]"] h1 h2
    by blast
  from c1 c2 c3 h1 h2 show ?thesis by blast
qed



end
